theory Spec2Isabelle
  imports Main "HOL-Library.Multiset"
begin

section \<open>The frequency ranking cells of the CountVectorizer notebook\<close>

text \<open>
  The notebook \<^verbatim>\<open>class10-sklearn-countvectorizer-inclass-ds\<close> builds a dictionary
  of corpus-wide term counts from a document-term matrix, sorts its items by count and
  prints two slices of the sorted list:
  \<^verbatim>\<open>
  dictVocab = {}
  for x in range(dtm.shape[1]):
      dictVocab[cv.get_feature_names()[x]]=dtm.toarray().sum(axis=0)[x]
  sortVocab = sorted(dictVocab.items(), key=lambda x: x[1], reverse=True)
  for i in sortVocab[0:30]: ...
  for i in sortVocab[200:230]: ...
  \<close>
  The vectorizer \<^verbatim>\<open>cv\<close> and the matrix \<^verbatim>\<open>dtm\<close> come from scikit-learn and are
  inputs here: the matrix is its shape and its dense rows, the feature names are a list
  of strings. The vectorizer is built with its defaults, so the entries and the column
  sums are numpy's signed 64-bit integers: they are modelled as \<^typ>\<open>int\<close> values,
  and every addition of the column sums wraps around into the 64-bit range.
\<close>

subsection \<open>Data\<close>

datatype error = IndexError

text \<open>The matrix: \<^verbatim>\<open>dtm.shape\<close> and the rows of \<^verbatim>\<open>dtm.toarray()\<close>.\<close>

record dtm =
  shape :: "nat \<times> nat"
  toarray :: "int list list"

text \<open>A dense array is rectangular and agrees with its shape.\<close>

definition wf_dtm :: "dtm \<Rightarrow> bool" where
  "wf_dtm m \<longleftrightarrow>
     length (toarray m) = fst (shape m) \<and>
     list_all (\<lambda>r. length r = snd (shape m)) (toarray m)"

text \<open>
  A Python 3.7 dictionary keeps its keys in insertion order, and \<^verbatim>\<open>items()\<close> lists
  the entries in that order: an association list whose keys are distinct.
\<close>

type_synonym dict = "(string \<times> int) list"

definition wf_dict :: "dict \<Rightarrow> bool" where
  "wf_dict d \<longleftrightarrow> distinct (map fst d)"

subsection \<open>Operations\<close>

text \<open>\<^verbatim>\<open>xs[i]\<close> for an index coming from \<^verbatim>\<open>range\<close>: IndexError past the end.\<close>

definition list_getitem :: "'a list \<Rightarrow> nat \<Rightarrow> error + 'a" where
  "list_getitem xs i = (if i < length xs then Inr (xs ! i) else Inl IndexError)"

text \<open>
  \<^verbatim>\<open>d[k] = v\<close>: a key already present keeps its position and takes the new value,
  a new key goes to the end.
\<close>

primrec dict_setitem :: "string \<Rightarrow> int \<Rightarrow> dict \<Rightarrow> dict" where
  "dict_setitem k v [] = [(k, v)]"
| "dict_setitem k v (p # ps) =
     (if fst p = k then (k, v) # ps else p # dict_setitem k v ps)"

definition items :: "dict \<Rightarrow> (string \<times> int) list" where
  "items d = d"

text \<open>
  A signed 64-bit result: \<open>9223372036854775808\<close> is \<open>2^63\<close> and
  \<open>18446744073709551616\<close> is \<open>2^64\<close>.
\<close>

definition wrap_int64 :: "int \<Rightarrow> int" where
  "wrap_int64 x =
     (x + 9223372036854775808) mod 18446744073709551616 - 9223372036854775808"

text \<open>The sum of one column: the accumulator starts at 0 and wraps at every addition.\<close>

definition sum_int64 :: "int list \<Rightarrow> int" where
  "sum_int64 xs = fold (\<lambda>x acc. wrap_int64 (acc + x)) xs 0"

text \<open>\<^verbatim>\<open>dtm.toarray().sum(axis=0)\<close>: one sum per column, over all rows.\<close>

definition sum_axis0 :: "dtm \<Rightarrow> int list" where
  "sum_axis0 m =
     map (\<lambda>j. sum_int64 (map (\<lambda>r. r ! j) (toarray m))) [0..<snd (shape m)]"

text \<open>
  The body of the loop, run over the indices still to come. The right-hand side of the
  assignment is evaluated first, then the subscript of the target.
\<close>

fun aggregate_loop :: "dtm \<Rightarrow> string list \<Rightarrow> nat list \<Rightarrow> dict \<Rightarrow> error + dict" where
  "aggregate_loop m vocab [] d = Inr d"
| "aggregate_loop m vocab (x # xs) d =
     (case list_getitem (sum_axis0 m) x of
        Inl e \<Rightarrow> Inl e
      | Inr c \<Rightarrow>
          (case list_getitem vocab x of
             Inl e \<Rightarrow> Inl e
           | Inr w \<Rightarrow> aggregate_loop m vocab xs (dict_setitem w c d)))"

text \<open>\<^verbatim>\<open>dictVocab\<close> after the loop over \<^verbatim>\<open>range(dtm.shape[1])\<close>.\<close>

definition aggregate :: "dtm \<Rightarrow> string list \<Rightarrow> error + dict" where
  "aggregate m vocab = aggregate_loop m vocab [0..<snd (shape m)] []"

text \<open>
  Python's \<^verbatim>\<open>sorted\<close> is a stable sort; with \<^verbatim>\<open>reverse=True\<close> it sorts as if every
  comparison were reversed, which keeps equal keys in their original order: the list is
  reversed, sorted stably and reversed again.
\<close>

definition sorted_py :: "('a \<Rightarrow> 'k::linorder) \<Rightarrow> bool \<Rightarrow> 'a list \<Rightarrow> 'a list" where
  "sorted_py key reverse xs =
     (if reverse then rev (sort_key key (rev xs)) else sort_key key xs)"

text \<open>\<^verbatim>\<open>sortVocab = sorted(dictVocab.items(), key=lambda x: x[1], reverse=True)\<close>\<close>

definition rank :: "dict \<Rightarrow> (string \<times> int) list" where
  "rank d = sorted_py (\<lambda>x. snd x) True (items d)"

text \<open>
  \<^verbatim>\<open>xs[start:end]\<close>: a negative bound counts from the end, and every bound is clamped
  into \<open>[0, len]\<close>; the slice is empty when the bounds cross.
\<close>

definition slice_index :: "int \<Rightarrow> nat \<Rightarrow> nat" where
  "slice_index i n =
     (if i < 0 then (if i + int n < 0 then 0 else nat (i + int n))
      else if int n < i then n else nat i)"

definition sliceRange :: "int \<Rightarrow> int \<Rightarrow> 'a list \<Rightarrow> 'a list" where
  "sliceRange start end xs =
     (let lo = slice_index start (length xs); hi = slice_index end (length xs)
      in take (hi - lo) (drop lo xs))"

text \<open>\<^verbatim>\<open>sortVocab[0:n]\<close>, the notebook's top 30 being \<open>n = 30\<close>.\<close>

definition topN :: "int \<Rightarrow> 'a list \<Rightarrow> 'a list" where
  "topN n xs = sliceRange 0 n xs"

text \<open>
  Modelled from the spec: \<^verbatim>\<open>rank_as_table\<close>, which the notebook does not have. The
  spec names it as the conversion of a ranked list back into a table; it is taken to be
  Python's \<^verbatim>\<open>dict(pairs)\<close>, which stores the pairs one after the other.
\<close>

definition rank_as_table :: "(string \<times> int) list \<Rightarrow> dict" where
  "rank_as_table ps = fold (\<lambda>p d. dict_setitem (fst p) (snd p) d) ps []"

section \<open>Properties of the aggregation loop\<close>

lemma dict_setitem_fresh:
  "k \<notin> set (map fst d) \<Longrightarrow> dict_setitem k v d = d @ [(k, v)]"
  by (induction d) auto

lemma aggregate_loop_Inr:
  assumes "\<forall>x \<in> set xs. x < length vocab \<and> x < snd (shape m)"
  shows "aggregate_loop m vocab xs d =
         Inr (fold (\<lambda>x. dict_setitem (vocab ! x) (sum_axis0 m ! x)) xs d)"
  using assms
  by (induction xs arbitrary: d) (simp_all add: list_getitem_def sum_axis0_def)

lemma fold_setitem_upt:
  assumes "distinct (take n vocab)" and "n \<le> length vocab"
  shows "fold (\<lambda>x. dict_setitem (vocab ! x) (f x)) [0..<n] []
         = map (\<lambda>x. (vocab ! x, f x)) [0..<n]"
  using assms
proof (induction n)
  case 0
  then show ?case by simp
next
  case (Suc n)
  from Suc.prems have d: "distinct (take n vocab)" and le: "n < length vocab"
    by (simp_all add: take_Suc_conv_app_nth)
  have keys: "map fst (map (\<lambda>x. (vocab ! x, f x)) [0..<n]) = take n vocab"
    using le by (intro nth_equalityI) simp_all
  have fresh: "vocab ! n \<notin> set (take n vocab)"
    using Suc.prems le by (simp add: take_Suc_conv_app_nth)
  show ?case
    using Suc.IH [OF d] le fresh keys
    by (simp add: dict_setitem_fresh)
qed

lemma aggregate_loop_prefix:
  assumes "k \<le> snd (shape m)" and "k \<le> length vocab" and "distinct (take k vocab)"
  shows "aggregate_loop m vocab [0..<k] []
         = Inr (map (\<lambda>x. (vocab ! x, sum_axis0 m ! x)) [0..<k])"
proof -
  have "aggregate_loop m vocab [0..<k] [] =
        Inr (fold (\<lambda>x. dict_setitem (vocab ! x) (sum_axis0 m ! x)) [0..<k] [])"
    using assms(1,2) by (intro aggregate_loop_Inr) auto
  then show ?thesis
    using fold_setitem_upt [OF assms(3) assms(2)] by simp
qed

lemma aggregate_zip:
  assumes "snd (shape m) \<le> length vocab" and "distinct (take (snd (shape m)) vocab)"
  shows "aggregate m vocab = Inr (zip (take (snd (shape m)) vocab) (sum_axis0 m))"
proof -
  let ?n = "snd (shape m)"
  have len: "length (sum_axis0 m) = ?n" by (simp add: sum_axis0_def)
  have "aggregate m vocab = Inr (map (\<lambda>x. (vocab ! x, sum_axis0 m ! x)) [0..<?n])"
    unfolding aggregate_def using assms by (intro aggregate_loop_prefix) simp_all
  also have "map (\<lambda>x. (vocab ! x, sum_axis0 m ! x)) [0..<?n]
             = zip (take ?n vocab) (sum_axis0 m)"
    using assms(1) len by (intro nth_equalityI) simp_all
  finally show ?thesis .
qed

lemma aggregate_loop_Inl:
  assumes "\<exists>x \<in> set xs. \<not> x < length vocab"
  shows "aggregate_loop m vocab xs d = Inl IndexError"
  using assms
proof (induction xs arbitrary: d)
  case Nil
  then show ?case by simp
next
  case (Cons x xs)
  show ?case
  proof (cases "list_getitem (sum_axis0 m) x")
    case (Inl e)
    then show ?thesis by (cases e) simp
  next
    case c: (Inr c)
    show ?thesis
    proof (cases "list_getitem vocab x")
      case (Inl e)
      with c show ?thesis by (cases e) simp
    next
      case (Inr w)
      then have "x < length vocab" by (simp add: list_getitem_def split: if_splits)
      with Cons.prems have "\<exists>y \<in> set xs. \<not> y < length vocab" by auto
      with c Inr Cons.IH show ?thesis by simp
    qed
  qed
qed

lemma aggregate_short_vocab:
  "length vocab < snd (shape m) \<Longrightarrow> aggregate m vocab = Inl IndexError"
  unfolding aggregate_def by (rule aggregate_loop_Inl) (auto intro: bexI [of _ "length vocab"])

lemma length_sum_axis0: "length (sum_axis0 m) = snd (shape m)"
  by (simp add: sum_axis0_def)

lemma wrap_int64_id:
  "- 9223372036854775808 \<le> x \<Longrightarrow> x < 9223372036854775808 \<Longrightarrow> wrap_int64 x = x"
  by (simp add: wrap_int64_def)

lemma wrap_int64_add: "wrap_int64 (wrap_int64 a + x) = wrap_int64 (a + x)"
proof -
  have "(wrap_int64 a + x + 9223372036854775808) mod 18446744073709551616
        = ((a + 9223372036854775808) mod 18446744073709551616 + x) mod 18446744073709551616"
    by (simp add: wrap_int64_def)
  also have "\<dots> = (a + 9223372036854775808 + x) mod 18446744073709551616"
    by (rule mod_add_left_eq)
  also have "a + 9223372036854775808 + x = a + x + 9223372036854775808"
    by simp
  finally have e: "(wrap_int64 a + x + 9223372036854775808) mod 18446744073709551616
        = (a + x + 9223372036854775808) mod 18446744073709551616" .
  have "wrap_int64 (wrap_int64 a + x)
        = (wrap_int64 a + x + 9223372036854775808) mod 18446744073709551616
          - 9223372036854775808"
    by (rule wrap_int64_def)
  also have "\<dots> = (a + x + 9223372036854775808) mod 18446744073709551616
          - 9223372036854775808"
    by (simp only: e)
  also have "\<dots> = wrap_int64 (a + x)" by (rule wrap_int64_def [symmetric])
  finally show ?thesis .
qed

lemma fold_wrap_int64:
  "fold (\<lambda>x acc. wrap_int64 (acc + x)) xs (wrap_int64 a) = wrap_int64 (a + sum_list xs)"
proof (induction xs arbitrary: a)
  case Nil
  then show ?case by simp
next
  case (Cons x xs)
  have "fold (\<lambda>x acc. wrap_int64 (acc + x)) (x # xs) (wrap_int64 a)
        = fold (\<lambda>x acc. wrap_int64 (acc + x)) xs (wrap_int64 (a + x))"
    by (simp add: wrap_int64_add)
  also have "\<dots> = wrap_int64 (a + x + sum_list xs)" by (rule Cons.IH)
  finally show ?case by (simp add: add.assoc)
qed

lemma sum_int64_wrap: "sum_int64 xs = wrap_int64 (sum_list xs)"
proof -
  have "wrap_int64 0 = 0" by (simp add: wrap_int64_def)
  then show ?thesis
    using fold_wrap_int64 [of xs 0] by (simp add: sum_int64_def)
qed

lemma sum_axis0_nth:
  assumes "wf_dtm m" and "j < snd (shape m)"
  shows "sum_axis0 m ! j = wrap_int64 (\<Sum>i<fst (shape m). toarray m ! i ! j)"
proof -
  have "sum_axis0 m ! j = wrap_int64 (sum_list (map (\<lambda>r. r ! j) (toarray m)))"
    using assms(2) by (simp add: sum_axis0_def sum_int64_wrap)
  also have "sum_list (map (\<lambda>r. r ! j) (toarray m))
             = (\<Sum>i = 0..<length (toarray m). toarray m ! i ! j)"
    by (simp add: sum_list_sum_nth)
  also have "\<dots> = (\<Sum>i<fst (shape m). toarray m ! i ! j)"
    using assms(1) by (simp add: wf_dtm_def atLeast0LessThan)
  finally show ?thesis .
qed

lemma column_sum_nonneg:
  assumes "wf_dtm m" and "list_all (list_all (\<lambda>x. 0 \<le> x)) (toarray m)"
    and "j < snd (shape m)"
  shows "0 \<le> (\<Sum>i<fst (shape m). toarray m ! i ! j)"
proof (rule sum_nonneg)
  fix i assume "i \<in> {..<fst (shape m)}"
  with assms(1) have i: "i < length (toarray m)" by (simp add: wf_dtm_def)
  then have r: "toarray m ! i \<in> set (toarray m)" by simp
  with assms(1) have "length (toarray m ! i) = snd (shape m)"
    by (simp add: wf_dtm_def list_all_iff)
  with assms(3) have "toarray m ! i ! j \<in> set (toarray m ! i)" by simp
  with assms(2) r show "0 \<le> toarray m ! i ! j" by (auto simp: list_all_iff)
qed

lemma sum_axis0_no_rows:
  assumes "wf_dtm m" and "fst (shape m) = 0"
  shows "sum_axis0 m = replicate (snd (shape m)) 0"
proof -
  from assms have "toarray m = []" by (simp add: wf_dtm_def)
  then show ?thesis by (simp add: sum_axis0_def sum_int64_def map_replicate_const)
qed

section \<open>Properties of the ranking\<close>

lemma rank_eq: "rank d = rev (sort_key snd (rev d))"
  by (simp add: rank_def sorted_py_def items_def)

lemma length_rank: "length (rank d) = length d"
  by (simp add: rank_eq)

lemma mset_rank: "mset (rank d) = mset d"
  by (simp add: rank_eq)

lemma sorted_rank: "sorted_wrt (\<lambda>a b. snd b \<le> snd a) (rank d)"
proof -
  have "sorted (map snd (sort_key snd (rev d)))" by simp
  then have "sorted_wrt (\<lambda>a b. snd a \<le> snd b) (sort_key snd (rev d))"
    by (simp add: sorted_map)
  then show ?thesis
    by (simp add: rank_eq sorted_wrt_rev)
qed

lemma stable_rank: "filter (\<lambda>e. snd e = k) (rank d) = filter (\<lambda>e. snd e = k) d"
proof -
  have "filter (\<lambda>e. snd e = k) (sort_key snd (rev d)) = filter (\<lambda>e. snd e = k) (rev d)"
    by (rule sort_key_stable)
  then have "rev (filter (\<lambda>e. snd e = k) (sort_key snd (rev d))) = filter (\<lambda>e. snd e = k) d"
    by (simp add: rev_filter)
  then show ?thesis by (simp add: rank_eq rev_filter)
qed

lemma wf_dict_rank: "wf_dict d \<Longrightarrow> wf_dict (rank d)"
proof -
  assume "wf_dict d"
  have "mset (map fst (rank d)) = mset (map fst d)"
    by (simp add: mset_rank)
  then have "distinct (map fst (rank d)) = distinct (map fst d)"
    by (rule mset_eq_imp_distinct_iff)
  with \<open>wf_dict d\<close> show ?thesis by (simp add: wf_dict_def)
qed

lemma keys_filter_count:
  "distinct (map fst d) \<Longrightarrow>
   map fst (filter (\<lambda>e. snd e = k) d) = filter (\<lambda>w. map_of d w = Some k) (map fst d)"
proof (induction d)
  case Nil
  then show ?case by simp
next
  case (Cons p ps)
  obtain w c where p: "p = (w, c)" by (cases p)
  from Cons.prems p have fresh: "w \<notin> fst ` set ps" and d: "distinct (map fst ps)"
    by simp_all
  have "filter (\<lambda>u. map_of (p # ps) u = Some k) (map fst ps)
        = filter (\<lambda>u. map_of ps u = Some k) (map fst ps)"
    using fresh p by (intro filter_cong) auto
  with Cons.IH [OF d] p show ?case by simp
qed

lemma rank_unique:
  assumes m: "mset ys = mset d"
    and s: "sorted_wrt (\<lambda>a b. snd b \<le> snd a) ys"
    and f: "\<And>k. filter (\<lambda>e. snd e = k) ys = filter (\<lambda>e. snd e = k) d"
  shows "ys = rank d"
proof -
  have "sort_key snd (rev d) = rev ys"
  proof (rule properties_for_sort_key)
    show "mset (rev ys) = mset (rev d)" using m by simp
    show "sorted (map snd (rev ys))"
      using s by (simp add: sorted_wrt_map sorted_wrt_rev rev_map)
    fix e assume "e \<in> set (rev ys)"
    have "filter (\<lambda>x. snd x = snd e) (rev ys) = filter (\<lambda>x. snd x = snd e) (rev d)"
      using f [of "snd e"] by (simp flip: rev_filter)
    then show "filter (\<lambda>x. snd e = snd x) (rev ys) = filter (\<lambda>x. snd e = snd x) (rev d)"
      by (simp add: eq_commute)
  qed
  then show ?thesis by (simp add: rank_eq)
qed

lemma rank_as_table_snoc:
  "rank_as_table (ps @ [p]) = dict_setitem (fst p) (snd p) (rank_as_table ps)"
  by (simp add: rank_as_table_def)

lemma rank_as_table_distinct:
  "distinct (map fst ps) \<Longrightarrow> rank_as_table ps = ps"
proof (induction ps rule: rev_induct)
  case Nil
  then show ?case by (simp add: rank_as_table_def)
next
  case (snoc p ps)
  then have "rank_as_table ps = ps" and "fst p \<notin> set (map fst ps)" by auto
  then show ?case by (simp add: rank_as_table_snoc dict_setitem_fresh)
qed

lemma rank_rank: "rank (rank d) = rank d"
proof -
  have "sort_key snd (sort_key snd (rev d)) = sort_key snd (rev d)"
    by (rule sort_key_id_if_sorted) simp
  then show ?thesis by (simp add: rank_eq)
qed

lemma rank_all_equal:
  assumes "\<forall>e \<in> set d. snd e = c"
  shows "rank d = d"
proof -
  have "set (rank d) = set d" using mset_rank [of d] by (metis set_mset_mset)
  then have "filter (\<lambda>e. snd e = c) (rank d) = rank d" using assms by simp
  moreover have "filter (\<lambda>e. snd e = c) d = d" using assms by simp
  ultimately show ?thesis using stable_rank [of c d] by simp
qed

section \<open>Properties of slicing\<close>

lemma slice_index_nonneg:
  "0 \<le> i \<Longrightarrow> slice_index i n = min (nat i) n"
  by (auto simp: slice_index_def)

lemma sliceRange_nonneg:
  assumes "0 \<le> start" and "start \<le> end"
  shows "sliceRange start end xs = take (nat end - nat start) (drop (nat start) xs)"
proof -
  from assms have e: "0 \<le> end" by simp
  show ?thesis
  proof (cases "nat start \<le> length xs")
    case True
    then show ?thesis
      using assms e by (simp add: sliceRange_def slice_index_nonneg Let_def min_def)
  next
    case False
    then show ?thesis
      using assms e by (simp add: sliceRange_def slice_index_nonneg Let_def min_def)
  qed
qed

lemma drop_as_nths: "drop n xs = map (\<lambda>i. xs ! i) [n..<length xs]"
  by (rule nth_equalityI) simp_all

section \<open>Aggregation\<close>

text \<open>
  C1, as the notebook has it. The column sums are 64-bit: two rows holding \<open>2^62\<close>
  in one column have the arithmetic sum \<open>2^63\<close>, and the table stores \<open>-2^63\<close>.
\<close>

theorem aggregate_column_sums_counterexample:
  "wf_dtm \<lparr>shape = (2, 1), toarray = [[4611686018427387904], [4611686018427387904]]\<rparr> \<and>
   list_all (list_all (\<lambda>x. 0 \<le> x)) [[4611686018427387904], [4611686018427387904::int]] \<and>
   length [''cat''] = snd (shape \<lparr>shape = (2, 1), toarray = [[4611686018427387904], [4611686018427387904]]\<rparr>) \<and>
   aggregate \<lparr>shape = (2, 1), toarray = [[4611686018427387904], [4611686018427387904]]\<rparr> [''cat'']
     = Inr [(''cat'', - 9223372036854775808)] \<and>
   (\<Sum>i<2. [[4611686018427387904], [4611686018427387904::int]] ! i ! 0) = 9223372036854775808"
  by (simp add: wf_dtm_def aggregate_def sum_axis0_def sum_int64_def wrap_int64_def
      list_getitem_def lessThan_Suc numeral_2_eq_2)

text \<open>
  C1, amended. For a matrix with \<open>R\<close> rows and \<open>C\<close> columns of non-negative
  integers in which the arithmetic sum of every column is below \<open>2^63\<close>, and a
  vocabulary of \<open>C\<close> terms (a vocabulary is a sequence of unique terms), the
  aggregation returns a table with exactly \<open>C\<close> entries, and the count stored under
  the term at vocabulary index \<open>j\<close> is the arithmetic sum of column \<open>j\<close> over all
  \<open>R\<close> rows.
\<close>

theorem aggregate_column_sums:
  assumes "wf_dtm m" and "list_all (list_all (\<lambda>x. 0 \<le> x)) (toarray m)"
    and "\<forall>j < snd (shape m). (\<Sum>i<fst (shape m). toarray m ! i ! j) < 9223372036854775808"
    and "length vocab = snd (shape m)" and "distinct vocab"
  shows "\<exists>t. aggregate m vocab = Inr t \<and> length t = snd (shape m) \<and>
           (\<forall>j < snd (shape m).
              map_of t (vocab ! j) = Some (\<Sum>i<fst (shape m). toarray m ! i ! j))"
proof -
  let ?t = "zip vocab (sum_axis0 m)"
  have agg: "aggregate m vocab = Inr ?t"
    using aggregate_zip [of m vocab] assms(4,5) by simp
  have len: "length ?t = snd (shape m)"
    using assms(4) by (simp add: length_sum_axis0)
  have "map_of ?t (vocab ! j) = Some (\<Sum>i<fst (shape m). toarray m ! i ! j)"
    if "j < snd (shape m)" for j
  proof -
    let ?s = "\<Sum>i<fst (shape m). toarray m ! i ! j"
    have "map_of ?t (vocab ! j) = Some (sum_axis0 m ! j)"
      using assms(4,5) that by (intro map_of_zip_nth) (simp_all add: length_sum_axis0)
    moreover have "0 \<le> ?s" using assms(1,2) that by (rule column_sum_nonneg)
    moreover have "?s < 9223372036854775808" using assms(3) that by blast
    ultimately show ?thesis
      using sum_axis0_nth [OF assms(1) that] by (simp add: wrap_int64_id)
  qed
  with agg len show ?thesis by blast
qed

text \<open>
  The theorem at a two by two matrix: moon sums to 3 and star to 4.
\<close>

theorem aggregate_column_sums_witness:
  "wf_dtm \<lparr>shape = (2, 2), toarray = [[1, 4], [2, 0]]\<rparr> \<and>
   list_all (list_all (\<lambda>x. 0 \<le> x)) (toarray \<lparr>shape = (2, 2), toarray = [[1, 4], [2, 0]]\<rparr>) \<and>
   (\<Sum>i<2. [[1, 4], [2, 0::int]] ! i ! 0) < 9223372036854775808 \<and>
   (\<Sum>i<2. [[1, 4], [2, 0::int]] ! i ! 1) < 9223372036854775808 \<and>
   length [''moon'', ''star''] = snd (shape \<lparr>shape = (2, 2), toarray = [[1, 4], [2, 0]]\<rparr>) \<and>
   distinct [''moon'', ''star''] \<and>
   (\<exists>t. aggregate \<lparr>shape = (2, 2), toarray = [[1, 4], [2, 0]]\<rparr> [''moon'', ''star''] = Inr t \<and>
        length t = 2 \<and> map_of t ''moon'' = Some 3 \<and> map_of t ''star'' = Some 4)"
proof -
  let ?m = "\<lparr>shape = (2, 2), toarray = [[1, 4], [2, 0]]\<rparr>"
  let ?v = "[''moon'', ''star'']"
  have h1: "wf_dtm ?m" by (simp add: wf_dtm_def)
  have h2: "list_all (list_all (\<lambda>x. 0 \<le> x)) (toarray ?m)" by simp
  have b0: "(\<Sum>i<2. [[1, 4], [2, 0::int]] ! i ! 0) < 9223372036854775808"
    and b1: "(\<Sum>i<2. [[1, 4], [2, 0::int]] ! i ! 1) < 9223372036854775808"
    by (simp_all add: lessThan_Suc numeral_2_eq_2)
  have h3: "\<forall>j < snd (shape ?m).
      (\<Sum>i<fst (shape ?m). toarray ?m ! i ! j) < 9223372036854775808"
  proof (intro allI impI)
    fix j assume "j < snd (shape ?m)"
    then have "j = 0 \<or> j = 1" by auto
    then show "(\<Sum>i<fst (shape ?m). toarray ?m ! i ! j) < 9223372036854775808"
      using b0 b1 by auto
  qed
  have h4: "length ?v = snd (shape ?m)" by simp
  have h5: "distinct ?v" by simp
  from aggregate_column_sums [OF h1 h2 h3 h4 h5] obtain t where
    T: "aggregate ?m ?v = Inr t \<and> length t = snd (shape ?m) \<and>
        (\<forall>j < snd (shape ?m).
           map_of t (?v ! j) = Some (\<Sum>i<fst (shape ?m). toarray ?m ! i ! j))" ..
  have t: "aggregate ?m ?v = Inr t" by (rule T [THEN conjunct1])
  have l: "length t = 2" using T [THEN conjunct2, THEN conjunct1] by simp
  note s = T [THEN conjunct2, THEN conjunct2]
  have a: "map_of t ''moon'' = Some 3"
    using s [rule_format, of 0] by (simp add: lessThan_Suc numeral_2_eq_2)
  have b: "map_of t ''star'' = Some 4"
    using s [rule_format, of 1] by (simp add: lessThan_Suc numeral_2_eq_2)
  from t l a b have "\<exists>t. aggregate ?m ?v = Inr t \<and>
        length t = 2 \<and> map_of t ''moon'' = Some 3 \<and> map_of t ''star'' = Some 4"
    by (intro exI [of _ t] conjI)
  with h1 h2 b0 b1 h4 h5 show ?thesis by (intro conjI)
qed

text \<open>
  C10. The loop visits the column indices in increasing order. With a vocabulary of
  unique terms, one per column, the table's keys are the vocabulary in its order, the
  table has one entry per term, and no assignment overwrites an entry: the dictionary
  before step \<open>k\<close> has the first \<open>k\<close> terms as its keys, and step \<open>k\<close> appends
  the entry of term \<open>k\<close> at its end.
\<close>

theorem aggregate_keeps_vocabulary_order:
  assumes "length vocab = snd (shape m)" and "distinct vocab"
  shows "\<exists>t. aggregate m vocab = Inr t \<and> map fst t = vocab \<and> wf_dict t \<and>
             length t = length vocab \<and>
             (\<forall>k < length vocab. \<exists>d.
                aggregate_loop m vocab [0..<k] [] = Inr d \<and> map fst d = take k vocab \<and>
                aggregate_loop m vocab [0..<Suc k] []
                  = Inr (d @ [(vocab ! k, sum_axis0 m ! k)]))"
proof -
  let ?t = "zip vocab (sum_axis0 m)"
  let ?e = "\<lambda>x. (vocab ! x, sum_axis0 m ! x)"
  have agg: "aggregate m vocab = Inr ?t"
    using aggregate_zip [of m vocab] assms by simp
  have keys: "map fst ?t = vocab"
    using assms(1) by (simp add: length_sum_axis0)
  have wf: "wf_dict ?t" using keys assms(2) by (simp add: wf_dict_def)
  have len: "length ?t = length vocab"
    using assms(1) by (simp add: length_sum_axis0)
  have step: "\<exists>d. aggregate_loop m vocab [0..<k] [] = Inr d \<and> map fst d = take k vocab \<and>
                aggregate_loop m vocab [0..<Suc k] [] = Inr (d @ [?e k])"
    if "k < length vocab" for k
  proof -
    have dk: "distinct (take k vocab)" and dk': "distinct (take (Suc k) vocab)"
      using assms(2) by (simp_all only: distinct_take)
    have a: "aggregate_loop m vocab [0..<k] [] = Inr (map ?e [0..<k])"
      using that assms(1) dk by (intro aggregate_loop_prefix) simp_all
    have b: "aggregate_loop m vocab [0..<Suc k] [] = Inr (map ?e [0..<Suc k])"
      using that assms(1) dk' by (intro aggregate_loop_prefix) simp_all
    have c: "map fst (map ?e [0..<k]) = take k vocab"
      using that by (intro nth_equalityI) simp_all
    from a b c show ?thesis by simp
  qed
  from agg keys wf len step show ?thesis by blast
qed

text \<open>
  The theorem at a one-row matrix with three columns.
\<close>

theorem aggregate_keeps_vocabulary_order_witness:
  "length [''sun'', ''cat'', ''dog''] = snd (shape \<lparr>shape = (1, 3), toarray = [[4, 4, 1]]\<rparr>) \<and>
   distinct [''sun'', ''cat'', ''dog''] \<and>
   (\<exists>t. aggregate \<lparr>shape = (1, 3), toarray = [[4, 4, 1]]\<rparr> [''sun'', ''cat'', ''dog''] = Inr t \<and>
        map fst t = [''sun'', ''cat'', ''dog''] \<and> wf_dict t \<and> length t = 3)"
proof -
  let ?m = "\<lparr>shape = (1, 3), toarray = [[4, 4, 1]]\<rparr>"
  let ?v = "[''sun'', ''cat'', ''dog'']"
  have h1: "length ?v = snd (shape ?m)" by simp
  have h2: "distinct ?v" by simp
  from aggregate_keeps_vocabulary_order [OF h1 h2] obtain t where
    T: "aggregate ?m ?v = Inr t \<and> map fst t = ?v \<and> wf_dict t \<and>
        length t = length ?v \<and>
        (\<forall>k < length ?v. \<exists>d.
           aggregate_loop ?m ?v [0..<k] [] = Inr d \<and> map fst d = take k ?v \<and>
           aggregate_loop ?m ?v [0..<Suc k] [] = Inr (d @ [(?v ! k, sum_axis0 ?m ! k)]))" ..
  have a: "aggregate ?m ?v = Inr t" by (rule T [THEN conjunct1])
  have b: "map fst t = ?v" by (rule T [THEN conjunct2, THEN conjunct1])
  have c: "wf_dict t" by (rule T [THEN conjunct2, THEN conjunct2, THEN conjunct1])
  have "length t = length ?v"
    by (rule T [THEN conjunct2, THEN conjunct2, THEN conjunct2, THEN conjunct1])
  then have d: "length t = 3" by simp
  from a b c d have "\<exists>t. aggregate ?m ?v = Inr t \<and> map fst t = ?v \<and> wf_dict t \<and> length t = 3"
    by (intro exI [of _ t] conjI)
  with h1 h2 show ?thesis by (intro conjI)
qed

text \<open>
  C3, as the notebook has it. The loop does not compare the two lengths. A vocabulary
  longer than the column count is not an error: the loop stops after the last column and
  returns the table of the first terms.
\<close>

theorem aggregate_length_mismatch_counterexample:
  "length [''cat'', ''dog'', ''sun''] \<noteq> snd (shape \<lparr>shape = (2, 2), toarray = [[2, 0], [1, 1]]\<rparr>) \<and>
   aggregate \<lparr>shape = (2, 2), toarray = [[2, 0], [1, 1]]\<rparr> [''cat'', ''dog'', ''sun'']
     = Inr [(''cat'', 3), (''dog'', 1)]"
  by code_simp

text \<open>
  C3, amended. When the vocabulary is shorter than the column count, the aggregation
  fails with IndexError, at the first column index that has no term, and returns no
  table. When the vocabulary is longer than the column count, the aggregation does not
  fail: it returns a table, which for unique terms pairs the first \<open>C\<close> terms with the
  \<open>C\<close> column sums.
\<close>

theorem aggregate_length_mismatch:
  "(length vocab < snd (shape m) \<longrightarrow> aggregate m vocab = Inl IndexError) \<and>
   (snd (shape m) < length vocab \<longrightarrow>
      (\<exists>t. aggregate m vocab = Inr t \<and>
           (distinct (take (snd (shape m)) vocab) \<longrightarrow>
              t = zip (take (snd (shape m)) vocab) (sum_axis0 m))))"
proof (intro conjI impI)
  assume "length vocab < snd (shape m)"
  then show "aggregate m vocab = Inl IndexError" by (rule aggregate_short_vocab)
next
  assume long: "snd (shape m) < length vocab"
  have ok: "aggregate m vocab =
        Inr (fold (\<lambda>x. dict_setitem (vocab ! x) (sum_axis0 m ! x)) [0..<snd (shape m)] [])"
    unfolding aggregate_def using long by (intro aggregate_loop_Inr) auto
  have "aggregate m vocab = Inr (zip (take (snd (shape m)) vocab) (sum_axis0 m))"
    if "distinct (take (snd (shape m)) vocab)"
    using aggregate_zip [of m vocab] long that by simp
  with ok show "\<exists>t. aggregate m vocab = Inr t \<and>
           (distinct (take (snd (shape m)) vocab) \<longrightarrow>
              t = zip (take (snd (shape m)) vocab) (sum_axis0 m))"
    by auto
qed

text \<open>
  Both cases at a matrix with two columns: one term, and three terms.
\<close>

theorem aggregate_length_mismatch_witness:
  "length [''cat''] < snd (shape \<lparr>shape = (1, 2), toarray = [[2, 5]]\<rparr>) \<and>
   aggregate \<lparr>shape = (1, 2), toarray = [[2, 5]]\<rparr> [''cat''] = Inl IndexError \<and>
   snd (shape \<lparr>shape = (1, 2), toarray = [[2, 5]]\<rparr>) < length [''cat'', ''dog'', ''sun''] \<and>
   distinct (take (snd (shape \<lparr>shape = (1, 2), toarray = [[2, 5]]\<rparr>)) [''cat'', ''dog'', ''sun'']) \<and>
   aggregate \<lparr>shape = (1, 2), toarray = [[2, 5]]\<rparr> [''cat'', ''dog'', ''sun'']
     = Inr [(''cat'', 2), (''dog'', 5)]"
proof -
  let ?m = "\<lparr>shape = (1, 2), toarray = [[2, 5]]\<rparr>"
  have h1: "length [''cat''] < snd (shape ?m)" by simp
  have h2: "snd (shape ?m) < length [''cat'', ''dog'', ''sun'']" by simp
  have h3: "distinct (take (snd (shape ?m)) [''cat'', ''dog'', ''sun''])"
    by (simp add: numeral_2_eq_2)
  have s: "sum_axis0 ?m = [2, 5]" by code_simp
  have a: "aggregate ?m [''cat''] = Inl IndexError"
    using aggregate_length_mismatch [of "[''cat'']" ?m] h1 by blast
  have "\<exists>t. aggregate ?m [''cat'', ''dog'', ''sun''] = Inr t \<and>
           (distinct (take (snd (shape ?m)) [''cat'', ''dog'', ''sun'']) \<longrightarrow>
              t = zip (take (snd (shape ?m)) [''cat'', ''dog'', ''sun'']) (sum_axis0 ?m))"
    using aggregate_length_mismatch [of "[''cat'', ''dog'', ''sun'']" ?m] h2 by blast
  with h3 have "aggregate ?m [''cat'', ''dog'', ''sun'']
      = Inr (zip (take (snd (shape ?m)) [''cat'', ''dog'', ''sun'']) (sum_axis0 ?m))"
    by blast
  moreover have "take (snd (shape ?m)) [''cat'', ''dog'', ''sun''] = [''cat'', ''dog'']"
    by (simp add: numeral_2_eq_2)
  ultimately have b: "aggregate ?m [''cat'', ''dog'', ''sun''] = Inr [(''cat'', 2), (''dog'', 5)]"
    by (simp only: s zip_Cons_Cons zip_Nil)
  from h1 a h2 h3 b show ?thesis by blast
qed

section \<open>Ranking\<close>

text \<open>
  C2. For every frequency table, the ranked list has the table's length, is a
  permutation of the table's entries, is sorted by non-increasing count, and is stable:
  for every count \<open>k\<close> the entries with that count come in the order they have in
  the table, so the terms with count \<open>k\<close> come in the order of the table's keys, which
  is the vocabulary order for a table built by the aggregation.
\<close>

theorem rank_sorted_stable_permutation:
  assumes "wf_dict t"
  shows "length (rank t) = length t \<and>
         mset (rank t) = mset (items t) \<and>
         sorted_wrt (\<lambda>a b. snd b \<le> snd a) (rank t) \<and>
         (\<forall>k. filter (\<lambda>e. snd e = k) (rank t) = filter (\<lambda>e. snd e = k) (items t)) \<and>
         (\<forall>k. map fst (filter (\<lambda>e. snd e = k) (rank t))
               = filter (\<lambda>w. map_of t w = Some k) (map fst (items t)))"
proof -
  have "map fst (filter (\<lambda>e. snd e = k) (rank t))
        = filter (\<lambda>w. map_of t w = Some k) (map fst t)" for k
    using assms keys_filter_count [of t k] by (simp add: stable_rank wf_dict_def)
  then show ?thesis
    by (simp add: length_rank mset_rank sorted_rank stable_rank items_def)
qed

text \<open>The theorem at a table with two ties: each tie keeps the table's order.\<close>

theorem rank_sorted_stable_permutation_witness:
  "wf_dict [(''and'', 2), (''bee'', 5), (''cow'', 2), (''dew'', 5)] \<and>
   rank [(''and'', 2), (''bee'', 5), (''cow'', 2), (''dew'', 5)]
     = [(''bee'', 5), (''dew'', 5), (''and'', 2), (''cow'', 2)] \<and>
   length (rank [(''and'', 2), (''bee'', 5), (''cow'', 2), (''dew'', 5)]) = 4 \<and>
   map fst (filter (\<lambda>e. snd e = 2) (rank [(''and'', 2), (''bee'', 5), (''cow'', 2), (''dew'', 5)]))
     = [''and'', ''cow'']"
proof -
  let ?t = "[(''and'', 2), (''bee'', 5), (''cow'', 2), (''dew'', 5)] :: dict"
  have h: "wf_dict ?t" by (simp add: wf_dict_def)
  have r: "rank ?t = [(''bee'', 5), (''dew'', 5), (''and'', 2), (''cow'', 2)]"
    by code_simp
  from rank_sorted_stable_permutation [OF h]
  have "length (rank ?t) = length ?t"
    and "map fst (filter (\<lambda>e. snd e = 2) (rank ?t))
         = filter (\<lambda>w. map_of ?t w = Some 2) (map fst (items ?t))"
    by blast+
  then show ?thesis using h r by (simp add: items_def)
qed

text \<open>
  C6. Ranking is idempotent: turning the ranked list of a table back into a table and
  ranking it again gives the same ranked list.
\<close>

theorem rank_idempotent:
  assumes "wf_dict t"
  shows "rank (rank_as_table (rank t)) = rank t"
proof -
  have "distinct (map fst (rank t))"
    using wf_dict_rank [OF assms] by (simp add: wf_dict_def)
  then have "rank_as_table (rank t) = rank t" by (rule rank_as_table_distinct)
  then show ?thesis by (simp add: rank_rank)
qed

text \<open>
  The theorem at a table with four entries.
\<close>

theorem rank_idempotent_witness:
  "wf_dict [(''and'', 2), (''bee'', 5), (''cow'', 2), (''dew'', 7)] \<and>
   rank_as_table (rank [(''and'', 2), (''bee'', 5), (''cow'', 2), (''dew'', 7)])
     = [(''dew'', 7), (''bee'', 5), (''and'', 2), (''cow'', 2)] \<and>
   rank [(''dew'', 7), (''bee'', 5), (''and'', 2), (''cow'', 2)]
     = rank [(''and'', 2), (''bee'', 5), (''cow'', 2), (''dew'', 7)]"
proof -
  let ?t = "[(''and'', 2), (''bee'', 5), (''cow'', 2), (''dew'', 7)] :: dict"
  have h: "wf_dict ?t" by (simp add: wf_dict_def)
  have r: "rank_as_table (rank ?t) = [(''dew'', 7), (''bee'', 5), (''and'', 2), (''cow'', 2)]"
    by code_simp
  from rank_idempotent [OF h] have "rank (rank_as_table (rank ?t)) = rank ?t" .
  with h r show ?thesis by simp
qed

section \<open>Slicing the ranked list\<close>

text \<open>
  C4. The first \<open>n\<close> entries of a ranked list: none for \<open>n = 0\<close>, the whole list for
  \<open>n\<close> the length, and for every \<open>n\<close> beyond the length the whole list again, never
  an error.
\<close>

theorem topN_boundaries:
  "topN 0 xs = [] \<and> topN (int (length xs)) xs = xs \<and>
   (\<forall>n. int (length xs) < n \<longrightarrow> topN n xs = xs)"
  by (simp add: topN_def sliceRange_def slice_index_def Let_def)

text \<open>
  The theorem at a list of two entries, with the notebook's \<open>n = 30\<close>.
\<close>

theorem topN_boundaries_witness:
  "topN 0 [(''bee'', 5::int), (''and'', 2)] = [] \<and>
   topN (int (length [(''bee'', 5::int), (''and'', 2)])) [(''bee'', 5::int), (''and'', 2)]
     = [(''bee'', 5), (''and'', 2)] \<and>
   int (length [(''bee'', 5::int), (''and'', 2)]) < 30 \<and>
   topN 30 [(''bee'', 5::int), (''and'', 2)] = [(''bee'', 5), (''and'', 2)]"
proof -
  let ?xs = "[(''bee'', 5::int), (''and'', 2)]"
  have h: "int (length ?xs) < 30" by simp
  from topN_boundaries [of ?xs]
  have "topN 0 ?xs = []" and "topN (int (length ?xs)) ?xs = ?xs"
    and "\<forall>n. int (length ?xs) < n \<longrightarrow> topN n ?xs = ?xs"
    by blast+
  with h show ?thesis by blast
qed

text \<open>
  C9. Slicing is total and clamps its bounds. For \<open>0 \<le> start \<le> end\<close> the slice is
  the list without its first \<open>start\<close> entries, cut to \<open>end - start\<close> entries; it is
  empty when \<open>start\<close> is at or beyond the length, and it is the entries from index
  \<open>start\<close> to the last one when \<open>end\<close> is beyond the length. Slicing has no raising
  branch: \<^const>\<open>sliceRange\<close> returns a list for all arguments.
\<close>

theorem sliceRange_total_clamping:
  assumes "0 \<le> start" and "start \<le> end"
  shows "sliceRange start end xs = take (nat end - nat start) (drop (nat start) xs) \<and>
         (int (length xs) \<le> start \<longrightarrow> sliceRange start end xs = []) \<and>
         (int (length xs) < end \<longrightarrow>
            sliceRange start end xs = map (\<lambda>i. xs ! i) [nat start..<length xs])"
proof -
  have eq: "sliceRange start end xs = take (nat end - nat start) (drop (nat start) xs)"
    using assms by (rule sliceRange_nonneg)
  have "sliceRange start end xs = []" if "int (length xs) \<le> start"
    using that eq by simp
  moreover have "sliceRange start end xs = map (\<lambda>i. xs ! i) [nat start..<length xs]"
    if "int (length xs) < end"
  proof -
    from that assms have "length xs - nat start \<le> nat end - nat start" by linarith
    then have "sliceRange start end xs = drop (nat start) xs" using eq by simp
    then show ?thesis by (simp add: drop_as_nths)
  qed
  ultimately show ?thesis using eq by blast
qed

text \<open>
  The notebook's rows 200 to 230 of a list of three entries, and rows 1 to 30.
\<close>

theorem sliceRange_total_clamping_witness:
  "(0::int) \<le> 200 \<and> (200::int) \<le> 230 \<and>
   int (length [''bee'', ''dew'', ''and'']) \<le> 200 \<and>
   sliceRange 200 230 [''bee'', ''dew'', ''and''] = [] \<and>
   (0::int) \<le> 1 \<and> (1::int) \<le> 30 \<and>
   int (length [''bee'', ''dew'', ''and'']) < 30 \<and>
   sliceRange 1 30 [''bee'', ''dew'', ''and''] = [''dew'', ''and'']"
proof -
  let ?xs = "[''bee'', ''dew'', ''and'']"
  have a: "(0::int) \<le> 200" and b: "(200::int) \<le> 230" by simp_all
  have c: "(0::int) \<le> 1" and d: "(1::int) \<le> 30" by simp_all
  have l1: "int (length ?xs) \<le> 200" and l2: "int (length ?xs) < 30" by simp_all
  have "sliceRange 200 230 ?xs = []"
    using sliceRange_total_clamping [OF a b, of ?xs] l1 by blast
  moreover have "sliceRange 1 30 ?xs = map (\<lambda>i. ?xs ! i) [nat 1..<length ?xs]"
    using sliceRange_total_clamping [OF c d, of ?xs] l2 by blast
  then have "sliceRange 1 30 ?xs = [''dew'', ''and'']"
    by (simp add: upt_rec [of "Suc 0"] upt_rec [of 2] numeral_3_eq_3 numeral_2_eq_2)
  ultimately show ?thesis using a b c d l1 l2 by blast
qed

section \<open>The worked example\<close>

text \<open>
  C7. On the matrix with rows \<open>[2,0,1]\<close> and \<open>[1,1,1]\<close> and the vocabulary
  cat, dog, sun, the aggregation returns the table cat 3, dog 1, sun 2, and ranking that
  table returns cat 3, sun 2, dog 1 in this order.
\<close>

theorem example_cat_dog_sun:
  "aggregate \<lparr>shape = (2, 3), toarray = [[2, 0, 1], [1, 1, 1]]\<rparr> [''cat'', ''dog'', ''sun'']
     = Inr [(''cat'', 3), (''dog'', 1), (''sun'', 2)]
   \<and> rank [(''cat'', 3), (''dog'', 1), (''sun'', 2)]
     = [(''cat'', 3), (''sun'', 2), (''dog'', 1)]"
  by code_simp

section \<open>The empty matrix\<close>

text \<open>
  C8. For a matrix with no rows and \<open>C\<close> columns and a vocabulary of \<open>C\<close> unique
  terms, every term's count is zero and the ranked list keeps the vocabulary order.
\<close>

theorem aggregate_empty_matrix:
  assumes "wf_dtm m" and "fst (shape m) = 0"
    and "length vocab = snd (shape m)" and "distinct vocab"
  shows "\<exists>t. aggregate m vocab = Inr t \<and> t = map (\<lambda>w. (w, 0)) vocab \<and>
             rank t = t \<and> map fst (rank t) = vocab"
proof -
  let ?t = "map (\<lambda>w. (w, 0::int)) vocab"
  have "aggregate m vocab = Inr (zip vocab (sum_axis0 m))"
    using aggregate_zip [of m vocab] assms(3,4) by simp
  also have "zip vocab (sum_axis0 m) = ?t"
    using assms(3) by (simp add: sum_axis0_no_rows [OF assms(1,2)] zip_replicate2)
  finally have agg: "aggregate m vocab = Inr ?t" .
  have r: "rank ?t = ?t" by (rule rank_all_equal) auto
  then have "map fst (rank ?t) = vocab" by (simp add: comp_def)
  with agg r show ?thesis by blast
qed

text \<open>
  The theorem at no rows and three columns.
\<close>

theorem aggregate_empty_matrix_witness:
  "wf_dtm \<lparr>shape = (0, 3), toarray = []\<rparr> \<and>
   fst (shape \<lparr>shape = (0, 3), toarray = []\<rparr>) = 0 \<and>
   length [''sun'', ''cat'', ''dog''] = snd (shape \<lparr>shape = (0, 3), toarray = []\<rparr>) \<and>
   distinct [''sun'', ''cat'', ''dog''] \<and>
   aggregate \<lparr>shape = (0, 3), toarray = []\<rparr> [''sun'', ''cat'', ''dog'']
     = Inr [(''sun'', 0), (''cat'', 0), (''dog'', 0)] \<and>
   map fst (rank [(''sun'', 0), (''cat'', 0), (''dog'', 0)]) = [''sun'', ''cat'', ''dog'']"
proof -
  let ?m = "\<lparr>shape = (0, 3), toarray = []\<rparr>"
  let ?v = "[''sun'', ''cat'', ''dog'']"
  have h1: "wf_dtm ?m" by (simp add: wf_dtm_def)
  have h2: "fst (shape ?m) = 0" by simp
  have h3: "length ?v = snd (shape ?m)" by simp
  have h4: "distinct ?v" by simp
  from aggregate_empty_matrix [OF h1 h2 h3 h4] obtain t where
    "aggregate ?m ?v = Inr t \<and> t = map (\<lambda>w. (w, 0)) ?v \<and>
     rank t = t \<and> map fst (rank t) = ?v" ..
  note T = this
  have a: "aggregate ?m ?v = Inr t" by (rule T [THEN conjunct1])
  have b: "t = map (\<lambda>w. (w, 0)) ?v" by (rule T [THEN conjunct2, THEN conjunct1])
  have c: "map fst (rank t) = ?v"
    by (rule T [THEN conjunct2, THEN conjunct2, THEN conjunct2])
  from b have b': "t = [(''sun'', 0), (''cat'', 0), (''dog'', 0)]" by simp
  from a c have "aggregate ?m ?v = Inr [(''sun'', 0), (''cat'', 0), (''dog'', 0)]"
    and "map fst (rank [(''sun'', 0), (''cat'', 0), (''dog'', 0)]) = ?v"
    unfolding b' by simp_all
  with h1 h2 h3 h4 show ?thesis by blast
qed

end
